theory Spec2Isabelle
  imports Complex_Main "HOL-Library.Multiset" "HOL-Library.AList"
begin

section \<open>Data model (types.ts)\<close>

text \<open>
  JavaScript numbers are modelled exactly: timestamps, rows and lanes as integers or
  naturals, pixel coordinates and rectangle sizes as reals (the quadtree halves widths).
  Rounding, NaN and infinities of IEEE doubles are outside the model.
\<close>

record CommitNode =
  oid :: string
  message :: string
  parents :: "string list"
  timestamp :: int
  refs :: "string list"
  isHead :: bool

record LayoutNode =
  n_oid :: string
  n_x :: real
  n_y :: real
  n_col :: nat
  n_row :: nat
  n_color :: string
  n_parents :: "string list"
  n_refs :: "string list"
  n_message :: string
  n_isHead :: bool

record Point =
  p_x :: real
  p_y :: real

record LayoutEdge =
  e_from :: string
  e_to :: string
  e_color :: string
  e_points :: "Point list"

record GraphLayout =
  nodes :: "LayoutNode list"
  edges :: "LayoutEdge list"
  width :: real
  height :: real

record BBox =
  b_x :: real
  b_y :: real
  b_width :: real
  b_height :: real

section \<open>Design tokens (tokens.ts)\<close>

definition branchColors :: "string list" where
  "branchColors = [''#6366f1'', ''#22c55e'', ''#f59e0b'', ''#ec4899'',
                   ''#06b6d4'', ''#f97316'', ''#a855f7'', ''#14b8a6'']"

definition colSpacing :: nat where "colSpacing = 80"
definition rowSpacing :: nat where "rowSpacing = 70"
definition padding :: nat where "padding = 60"

section \<open>Topological sort (topologicalSort)\<close>

text \<open>A JavaScript \<open>Map\<close> iterates in insertion order and \<open>set\<close> on a present key keeps its
  place: an association list with \<open>AList.update\<close>. The in-degrees are JavaScript numbers,
  here integers. The variable \<open>sorted\<close> of the source is \<open>sorted_ids\<close>.\<close>

text \<open>\<open>map.get(k) ?? d\<close> on a map kept as an association list.\<close>

definition getOr :: "('k \<times> 'v) list \<Rightarrow> 'k \<Rightarrow> 'v \<Rightarrow> 'v" where
  "getOr m k d = (case map_of m k of Some v \<Rightarrow> v | None \<Rightarrow> d)"

text \<open>The inner loop of the first pass, over \<open>c.parents\<close>, on \<open>inDegree\<close> and \<open>children\<close>.\<close>

fun countParents ::
  "string set \<Rightarrow> string \<Rightarrow> string list \<Rightarrow> (string \<times> int) list \<times> (string \<times> string list) list
     \<Rightarrow> (string \<times> int) list \<times> (string \<times> string list) list" where
  "countParents oidSet co [] (inDegree, childrenOf) = (inDegree, childrenOf)"
| "countParents oidSet co (p # ps) (inDegree, childrenOf) =
     (if p \<notin> oidSet then countParents oidSet co ps (inDegree, childrenOf)
      else countParents oidSet co ps
             (AList.update co (getOr inDegree co 0 + 1) inDegree,
              AList.update p (getOr childrenOf p [] @ [co]) childrenOf))"

definition addCommit ::
  "string set \<Rightarrow> CommitNode \<Rightarrow> (string \<times> int) list \<times> (string \<times> string list) list
     \<Rightarrow> (string \<times> int) list \<times> (string \<times> string list) list" where
  "addCommit oidSet c st =
     countParents oidSet (oid c) (parents c)
       (if map_of (fst st) (oid c) = None then AList.update (oid c) 0 (fst st) else fst st, snd st)"

text \<open>The loop over \<open>children.get(node) ?? []\<close>, on \<open>inDegree\<close> and \<open>queue\<close>.\<close>

fun relax :: "string list \<Rightarrow> (string \<times> int) list \<times> string list
                \<Rightarrow> (string \<times> int) list \<times> string list" where
  "relax [] (inDegree, queue) = (inDegree, queue)"
| "relax (child # cs) (inDegree, queue) =
     (let newDeg = getOr inDegree child 1 - 1
      in relax cs (AList.update child newDeg inDegree,
                   if newDeg = 0 then queue @ [child] else queue))"

text \<open>The \<open>while (queueIdx < queue.length)\<close> loop.\<close>

function kahnLoop ::
  "(string \<times> string list) list \<Rightarrow> (string \<times> int) list \<Rightarrow> string list \<Rightarrow> nat \<Rightarrow> string list
     \<Rightarrow> string list" where
  "kahnLoop childrenOf inDegree queue queueIdx sorted_ids =
     (if queueIdx < length queue then
        (let node = queue ! queueIdx;
             (inDegree', queue') = relax (getOr childrenOf node []) (inDegree, queue)
         in kahnLoop childrenOf inDegree' queue' (queueIdx + 1) (sorted_ids @ [node]))
      else sorted_ids)"
  by pat_completeness auto

definition topologicalSort :: "CommitNode list \<Rightarrow> string list" where
  "topologicalSort commits =
     (let oidSet = set (map oid commits);
          (inDegree, childrenOf) = fold (addCommit oidSet) commits ([], []);
          queue = map fst (filter (\<lambda>(k, deg). deg = 0) inDegree);
          sorted_ids = kahnLoop childrenOf inDegree queue 0 []
      in sorted_ids @ filter (\<lambda>k. k \<notin> set sorted_ids) (map oid commits))"

section \<open>Column assignment (assignColumns)\<close>

text \<open>\<open>Array.prototype.indexOf\<close>: the first index holding the value; the source's
  \<open>-1\<close> is \<open>None\<close>.\<close>

fun indexOf :: "'a list \<Rightarrow> 'a \<Rightarrow> nat option" where
  "indexOf [] v = None"
| "indexOf (a # as) v = (if a = v then Some 0 else map_option Suc (indexOf as v))"

text \<open>\<open>[...commits].sort((a, b) => b.timestamp - a.timestamp)\<close>: a stable sort,
  newest first.\<close>

definition sortNewestFirst :: "CommitNode list \<Rightarrow> CommitNode list" where
  "sortNewestFirst commits = sort_key (\<lambda>c. - timestamp c) commits"

record LaneState =
  columns :: "string \<rightharpoonup> nat"
  activeLanes :: "string option list"
  reservations :: "string \<rightharpoonup> nat"

text \<open>The first free lane, or a lane appended at the end: the index and the lane array.\<close>

definition firstFreeLane :: "string option list \<Rightarrow> nat \<times> string option list" where
  "firstFreeLane lanes =
     (case indexOf lanes None of
        Some i \<Rightarrow> (i, lanes)
      | None \<Rightarrow> (length lanes, lanes @ [None]))"

text \<open>The loop over \<open>commit.parents\<close>, with the loop index \<open>i\<close>. The lane \<open>cl\<close> of the
  commit is an index of \<open>activeLanes\<close> (it was found or appended there), and so is every
  reserved lane: the reads and writes by index below stay in range, where JavaScript and
  HOL lists agree.\<close>

fun reserveParents :: "string set \<Rightarrow> nat \<Rightarrow> nat \<Rightarrow> string list \<Rightarrow> LaneState \<Rightarrow> LaneState" where
  "reserveParents oidSet cl i [] s = s"
| "reserveParents oidSet cl i (parent # ps) s =
     (if parent \<notin> oidSet then reserveParents oidSet cl (Suc i) ps s
      else if columns s parent \<noteq> None \<or> reservations s parent \<noteq> None
        then reserveParents oidSet cl (Suc i) ps s
      else
        (let (laneIdx, lanes) =
               (if i = 0 \<and> activeLanes s ! cl = None then (cl, activeLanes s)
                else firstFreeLane (activeLanes s))
         in reserveParents oidSet cl (Suc i) ps
              (s\<lparr>activeLanes := lanes[laneIdx := Some parent],
                 reservations := (reservations s)(parent \<mapsto> laneIdx)\<rparr>)))"

text \<open>One iteration of the loop over the sorted commits.\<close>

definition placeCommit :: "string set \<Rightarrow> CommitNode \<Rightarrow> LaneState \<Rightarrow> LaneState" where
  "placeCommit oidSet commit s =
     (let (cl, lanes, res) =
            (case reservations s (oid commit) of
               Some r \<Rightarrow> (r, (activeLanes s)[r := None], (reservations s)((oid commit) := None))
             | None \<Rightarrow>
                 (let (f, lanes') = firstFreeLane (activeLanes s)
                  in (f, lanes', reservations s)))
      in reserveParents oidSet cl 0 (parents commit)
           (s\<lparr>columns := (columns s)(oid commit \<mapsto> cl), activeLanes := lanes,
              reservations := res\<rparr>))"

definition assignColumns :: "CommitNode list \<Rightarrow> (string \<rightharpoonup> nat)" where
  "assignColumns commits =
     columns (fold (placeCommit (set (map oid commits))) (sortNewestFirst commits)
                \<lparr>columns = Map.empty, activeLanes = [], reservations = Map.empty\<rparr>)"

section \<open>Layout (computeLayout)\<close>

definition mkNode :: "(string \<rightharpoonup> nat) \<Rightarrow> CommitNode \<Rightarrow> nat \<Rightarrow> LayoutNode" where
  "mkNode cols commit rw =
     (let cl = (case cols (oid commit) of Some k \<Rightarrow> k | None \<Rightarrow> 0);
          colorIdx = cl mod length branchColors
      in \<lparr>n_oid = oid commit,
          n_x = real (padding + cl * colSpacing),
          n_y = real (padding + rw * rowSpacing),
          n_col = cl, n_row = rw,
          n_color = branchColors ! colorIdx,
          n_parents = parents commit, n_refs = refs commit,
          n_message = message commit, n_isHead = isHead commit\<rparr>)"

definition mkEdge :: "LayoutNode \<Rightarrow> string \<Rightarrow> LayoutNode \<Rightarrow> LayoutEdge" where
  "mkEdge node parentOid parent =
     (let pts =
        (if n_col node = n_col parent
         then [\<lparr>p_x = n_x node, p_y = n_y node\<rparr>, \<lparr>p_x = n_x parent, p_y = n_y parent\<rparr>]
         else (let midY = (n_y node + n_y parent) / 2
               in [\<lparr>p_x = n_x node, p_y = n_y node\<rparr>, \<lparr>p_x = n_x node, p_y = midY\<rparr>,
                   \<lparr>p_x = n_x parent, p_y = midY\<rparr>, \<lparr>p_x = n_x parent, p_y = n_y parent\<rparr>]))
      in \<lparr>e_from = n_oid node, e_to = parentOid, e_color = n_color node, e_points = pts\<rparr>)"

text \<open>The inner loop over \<open>node.parents\<close>: a parent absent from \<open>nodeMap\<close> is skipped.\<close>

fun edgesOf :: "(string \<rightharpoonup> LayoutNode) \<Rightarrow> LayoutNode \<Rightarrow> string list \<Rightarrow> LayoutEdge list" where
  "edgesOf nodeMap node [] = []"
| "edgesOf nodeMap node (parentOid # ps) =
     (case nodeMap parentOid of
        None \<Rightarrow> edgesOf nodeMap node ps
      | Some parent \<Rightarrow> mkEdge node parentOid parent # edgesOf nodeMap node ps)"

definition computeLayout :: "CommitNode list \<Rightarrow> GraphLayout" where
  "computeLayout commits =
     (if length commits = 0 then \<lparr>nodes = [], edges = [], width = 0, height = 0\<rparr>
      else
        (let cols = assignColumns commits;
             sorted = sortNewestFirst commits;
             ns = map (\<lambda>(commit, rw). mkNode cols commit rw) (zip sorted [0..<length sorted]);
             nodeMap = fold (\<lambda>n m. m(n_oid n \<mapsto> n)) ns Map.empty;
             es = concat (map (\<lambda>node. edgesOf nodeMap node (n_parents node)) ns);
             maxCol = fold max (map n_col ns) 0;
             w = real (padding * 2 + maxCol * colSpacing);
             h = real (padding * 2 + (length ns - 1) * rowSpacing)
         in \<lparr>nodes = ns, edges = es, width = max w 200, height = max h 200\<rparr>))"

section \<open>Quadtree for hit testing\<close>

record 'a QEntry =
  q_item :: 'a
  q_x :: real
  q_y :: real

datatype 'a QuadtreeNode =
  QuadtreeNode (bounds: BBox) (items: "'a QEntry list") (children: "'a QuadtreeNode list option")

record 'a Quadtree =
  root :: "'a QuadtreeNode"
  maxItems :: int
  maxDepth :: int

definition newQuadtree :: "BBox \<Rightarrow> int \<Rightarrow> int \<Rightarrow> 'a Quadtree" where
  "newQuadtree b mi md = \<lparr>root = QuadtreeNode b [] None, maxItems = mi, maxDepth = md\<rparr>"

definition inBounds :: "BBox \<Rightarrow> real \<Rightarrow> real \<Rightarrow> bool" where
  "inBounds b px py \<longleftrightarrow>
     px \<ge> b_x b \<and> px \<le> b_x b + b_width b \<and> py \<ge> b_y b \<and> py \<le> b_y b + b_height b"

definition boundsOverlap :: "BBox \<Rightarrow> BBox \<Rightarrow> bool" where
  "boundsOverlap a b \<longleftrightarrow>
     \<not> (b_x a > b_x b + b_width b \<or> b_x a + b_width a < b_x b \<or>
        b_y a > b_y b + b_height b \<or> b_y a + b_height a < b_y b)"

text \<open>The inner loop of \<open>subdivide\<close>: the entry goes to the first child whose bounds hold
  it; \<open>None\<close> is \<open>placed = false\<close>.\<close>

fun placeInChildren :: "'a QuadtreeNode list \<Rightarrow> 'a QEntry \<Rightarrow> 'a QuadtreeNode list option" where
  "placeInChildren [] e = None"
| "placeInChildren (c # cs) e =
     (if inBounds (bounds c) (q_x e) (q_y e)
      then Some (QuadtreeNode (bounds c) (items c @ [e]) (children c) # cs)
      else map_option ((#) c) (placeInChildren cs e))"

text \<open>The outer loop of \<open>subdivide\<close> over \<open>oldItems\<close>; the state is \<open>node.items\<close> and
  \<open>node.children\<close>.\<close>

fun redistribute ::
  "'a QEntry list \<Rightarrow> 'a QEntry list \<times> 'a QuadtreeNode list \<Rightarrow> 'a QEntry list \<times> 'a QuadtreeNode list" where
  "redistribute [] (its, cs) = (its, cs)"
| "redistribute (e # es) (its, cs) =
     (case placeInChildren cs e of
        Some cs' \<Rightarrow> redistribute es (its, cs')
      | None \<Rightarrow> redistribute es (its @ [e], cs))"

definition quadrants :: "BBox \<Rightarrow> 'a QuadtreeNode list" where
  "quadrants b =
     (let x = b_x b; y = b_y b; hw = b_width b / 2; hh = b_height b / 2
      in [QuadtreeNode \<lparr>b_x = x, b_y = y, b_width = hw, b_height = hh\<rparr> [] None,
          QuadtreeNode \<lparr>b_x = x + hw, b_y = y, b_width = hw, b_height = hh\<rparr> [] None,
          QuadtreeNode \<lparr>b_x = x, b_y = y + hh, b_width = hw, b_height = hh\<rparr> [] None,
          QuadtreeNode \<lparr>b_x = x + hw, b_y = y + hh, b_width = hw, b_height = hh\<rparr> [] None])"

definition subdivide :: "'a QuadtreeNode \<Rightarrow> 'a QuadtreeNode" where
  "subdivide node =
     (let (its, cs) = redistribute (items node) ([], quadrants (bounds node))
      in QuadtreeNode (bounds node) its (Some cs))"

text \<open>\<open>insertInto\<close>, with its loop over \<open>node.children\<close> as \<open>insertChild\<close> (\<open>None\<close>: no
  child holds the point, the loop falls through).\<close>

fun insertInto :: "int \<Rightarrow> int \<Rightarrow> 'a QuadtreeNode \<Rightarrow> 'a QEntry \<Rightarrow> nat \<Rightarrow> 'a QuadtreeNode"
  and insertChild ::
    "int \<Rightarrow> int \<Rightarrow> 'a QuadtreeNode list \<Rightarrow> 'a QEntry \<Rightarrow> nat \<Rightarrow> 'a QuadtreeNode list option" where
  "insertInto mi md (QuadtreeNode b its ch) e depth =
     (if \<not> inBounds b (q_x e) (q_y e) then QuadtreeNode b its ch
      else
        (case ch of
           None \<Rightarrow>
             (let node' = QuadtreeNode b (its @ [e]) None
              in if int (length (its @ [e])) > mi \<and> int depth < md then subdivide node'
                 else node')
         | Some cs \<Rightarrow>
             (case insertChild mi md cs e depth of
                Some cs' \<Rightarrow> QuadtreeNode b its (Some cs')
              | None \<Rightarrow> QuadtreeNode b (its @ [e]) (Some cs))))"
| "insertChild mi md [] e depth = None"
| "insertChild mi md (c # cs) e depth =
     (if inBounds (bounds c) (q_x e) (q_y e)
      then Some (insertInto mi md c e (depth + 1) # cs)
      else map_option ((#) c) (insertChild mi md cs e depth))"

definition insert_qt :: "'a Quadtree \<Rightarrow> 'a \<Rightarrow> real \<Rightarrow> real \<Rightarrow> 'a Quadtree" where
  "insert_qt t i px py =
     t\<lparr>root := insertInto (maxItems t) (maxDepth t) (root t) \<lparr>q_item = i, q_x = px, q_y = py\<rparr> 0\<rparr>"

text \<open>\<open>queryNode\<close>: the entries the callback is called with, in call order.\<close>

fun queryNode :: "'a QuadtreeNode \<Rightarrow> real \<Rightarrow> real \<Rightarrow> real \<Rightarrow> 'a QEntry list" where
  "queryNode (QuadtreeNode b its ch) px py radius =
     (if \<not> boundsOverlap b
            \<lparr>b_x = px - radius, b_y = py - radius, b_width = radius * 2, b_height = radius * 2\<rparr>
      then []
      else its @ (case ch of
                    None \<Rightarrow> []
                  | Some cs \<Rightarrow> concat (map (\<lambda>c. queryNode c px py radius) cs)))"

text \<open>The callback of \<open>queryNearest\<close>, on its two captured variables \<open>best\<close> and
  \<open>bestDist\<close>.\<close>

definition nearestStep :: "real \<Rightarrow> real \<Rightarrow> 'a option \<times> real \<Rightarrow> 'a QEntry \<Rightarrow> 'a option \<times> real" where
  "nearestStep px py acc e =
     (let d = (q_x e - px)\<^sup>2 + (q_y e - py)\<^sup>2
      in if d < snd acc then (Some (q_item e), d) else acc)"

definition queryNearest :: "'a Quadtree \<Rightarrow> real \<Rightarrow> real \<Rightarrow> real \<Rightarrow> 'a option" where
  "queryNearest t px py radius =
     fst (foldl (nearestStep px py) (None, radius * radius) (queryNode (root t) px py radius))"




section \<open>Ancestry query (isAncestor)\<close>

text \<open>\<open>commitMap\<close>: a JavaScript \<open>Map\<close> keeps its keys in insertion order and \<open>set\<close> on a
  present key replaces the value in place; an association list with \<open>AList.update\<close> is
  that, and \<open>map_of\<close> is \<open>get\<close>.\<close>

definition buildCommitMap :: "CommitNode list \<Rightarrow> (string \<times> CommitNode) list" where
  "buildCommitMap commits = fold (\<lambda>c m. AList.update (oid c) c m) commits []"

text \<open>The \<open>while (queue.length > 0)\<close> loop on \<open>visited\<close> and \<open>queue\<close>; \<open>queue.shift()\<close> takes
  the head. The loop stops on every input: the identifiers still to visit, among those of
  the queue and of the parent lists, get fewer, or the queue gets shorter.\<close>

function bfsLoop ::
  "(string \<times> CommitNode) list \<Rightarrow> string \<Rightarrow> string set \<Rightarrow> string list \<Rightarrow> bool" where
  "bfsLoop commitMap ancestor visited [] = False"
| "bfsLoop commitMap ancestor visited (current # rest) =
     (if current = ancestor then True
      else if current \<in> visited then bfsLoop commitMap ancestor visited rest
      else
        (case map_of commitMap current of
           None \<Rightarrow> bfsLoop commitMap ancestor (insert current visited) rest
         | Some node \<Rightarrow>
             bfsLoop commitMap ancestor (insert current visited)
               (rest @ filter (\<lambda>p. p \<notin> insert current visited) (parents node))))"
  by pat_completeness auto
termination
proof (relation "measures [\<lambda>(m, a, v, q). card ((set q \<union> (\<Union>e\<in>set m. set (parents (snd e)))) - v),
                           \<lambda>(m, a, v, q). length q]", goal_cases)
  case 1
  then show ?case by simp
next
  case (2 commitMap ancestor visited current rest)
  then have "(set (current # rest) \<union> (\<Union>e\<in>set commitMap. set (parents (snd e)))) - visited
           = (set rest \<union> (\<Union>e\<in>set commitMap. set (parents (snd e)))) - visited"
    by auto
  then show ?case by simp
next
  case (3 commitMap ancestor visited current rest)
  let ?U = "\<Union>e\<in>set commitMap. set (parents (snd e))"
  have "(set rest \<union> ?U) - insert current visited \<subset> (set (current # rest) \<union> ?U) - visited"
    using 3 by auto
  moreover have "finite ((set (current # rest) \<union> ?U) - visited)" by simp
  ultimately show ?case by (simp add: psubset_card_mono)
next
  case (4 commitMap ancestor visited current rest node)
  let ?U = "\<Union>e\<in>set commitMap. set (parents (snd e))"
  have "(current, node) \<in> set commitMap" using 4(3) by (rule map_of_SomeD)
  then have "set (parents node) \<subseteq> ?U" by force
  then have "(set (rest @ filter (\<lambda>p. p \<notin> insert current visited) (parents node)) \<union> ?U)
                - insert current visited \<subset> (set (current # rest) \<union> ?U) - visited"
    using 4(1,2) by auto
  moreover have "finite ((set (current # rest) \<union> ?U) - visited)" by simp
  ultimately show ?case by (simp add: psubset_card_mono)
qed

definition isAncestor :: "CommitNode list \<Rightarrow> string \<Rightarrow> string \<Rightarrow> bool" where
  "isAncestor commits ancestor descendant =
     bfsLoop (buildCommitMap commits) ancestor {} [descendant]"

section \<open>Vocabulary of the properties\<close>

text \<open>The parent references as edges, from the identifier of each commit to each entry of
  its parent list (resolved or not).\<close>

definition parentEdges :: "CommitNode list \<Rightarrow> (string \<times> string) set" where
  "parentEdges commits = {(oid c, p) | c p. c \<in> set commits \<and> p \<in> set (parents c)}"






text \<open>A sequence of \<open>insert\<close> calls, each with its item and point.\<close>

definition insertAll :: "'a Quadtree \<Rightarrow> ('a \<times> real \<times> real) list \<Rightarrow> 'a Quadtree" where
  "insertAll t ops = fold (\<lambda>(i, px, py) qt. insert_qt qt i px py) ops t"


text \<open>The lanes of a root \<open>r\<close> with two children \<open>a\<close> and \<open>b\<close>: all three have a lane,
  exactly one child has the lane of the root, and two lanes are used in all.\<close>

definition forkLanes :: "(string \<rightharpoonup> nat) \<Rightarrow> string \<Rightarrow> string \<Rightarrow> string \<Rightarrow> bool" where
  "forkLanes cols r a b =
     (case (cols r, cols a, cols b) of
        (Some lr, Some la, Some lb) \<Rightarrow>
           ((la = lr \<and> lb \<noteq> lr) \<or> (lb = lr \<and> la \<noteq> lr)) \<and> card (ran cols) = 2
      | _ \<Rightarrow> False)"

text \<open>The identifiers of \<open>U\<close> whose in-degree is absent or positive: the measure of the
  queue loop.\<close>

definition pending :: "string set \<Rightarrow> (string \<times> int) list \<Rightarrow> string set" where
  "pending U inDegree = {k \<in> U. case map_of inDegree k of None \<Rightarrow> True | Some d \<Rightarrow> 0 < d}"

text \<open>The parent references of a commit that resolve to an identifier of the list.\<close>

definition resolved :: "CommitNode list \<Rightarrow> CommitNode \<Rightarrow> string list" where
  "resolved commits c = filter (\<lambda>p. p \<in> set (map oid commits)) (parents c)"

text \<open>What the first loop of \<open>topologicalSort\<close> has built after the commits \<open>xs\<close>: the
  in-degree of a commit is the number of its resolved parent references, and the children
  list of \<open>p\<close> holds a commit once for each time it names \<open>p\<close>.\<close>

definition firstPass :: "string set \<Rightarrow> CommitNode list \<Rightarrow> (string \<times> int) list \<times> (string \<times> string list) list \<Rightarrow> bool" where
  "firstPass ids xs st \<longleftrightarrow>
     distinct (map fst (fst st)) \<and>
     (\<forall>k. k \<notin> oid ` set xs \<longrightarrow> map_of (fst st) k = None) \<and>
     (\<forall>c\<in>set xs. map_of (fst st) (oid c) = Some (int (length (filter (\<lambda>p. p \<in> ids) (parents c))))) \<and>
     (\<forall>p. set (getOr (snd st) p []) \<subseteq> oid ` set xs) \<and>
     (\<forall>c\<in>set xs. \<forall>p. count_list (getOr (snd st) p []) (oid c)
                          = count_list (filter (\<lambda>p. p \<in> ids) (parents c)) p)"

text \<open>The \<open>children\<close> map agrees with the resolved parent references.\<close>

definition graphOf :: "CommitNode list \<Rightarrow> (string \<times> string list) list \<Rightarrow> bool" where
  "graphOf cs ch \<longleftrightarrow>
     distinct (map oid cs) \<and>
     (\<forall>p. set (getOr ch p []) \<subseteq> oid ` set cs) \<and>
     (\<forall>c\<in>set cs. \<forall>p. count_list (getOr ch p []) (oid c) = count_list (resolved cs c) p)"

text \<open>The invariant of the queue loop: \<open>sorted\<close> is the processed prefix of the queue, the
  in-degree of a commit counts its resolved parents not yet processed, a commit whose
  resolved parents are all processed is in the queue, and every queued commit has all its
  resolved parents processed and earlier in the queue.\<close>

definition kahnInv ::
  "CommitNode list \<Rightarrow> (string \<times> int) list \<Rightarrow> string list \<Rightarrow> nat \<Rightarrow> string list \<Rightarrow> bool" where
  "kahnInv cs deg queue idx srt \<longleftrightarrow>
     idx \<le> length queue \<and> distinct queue \<and> set queue \<subseteq> oid ` set cs \<and> srt = take idx queue \<and>
     (\<forall>c\<in>set cs. map_of deg (oid c)
         = Some (int (length (filter (\<lambda>p. p \<notin> set (take idx queue)) (resolved cs c))))) \<and>
     (\<forall>c\<in>set cs. (\<forall>p\<in>set (resolved cs c). p \<in> set (take idx queue)) \<longrightarrow> oid c \<in> set queue) \<and>
     (\<forall>j<length queue. \<forall>c\<in>set cs. oid c = queue ! j \<longrightarrow>
         (\<forall>p\<in>set (resolved cs c). p \<in> set (take j queue) \<and> p \<in> set (take idx queue)))"

text \<open>What the invariant leaves when the loop ends.\<close>

definition kahnFinal :: "CommitNode list \<Rightarrow> string list \<Rightarrow> bool" where
  "kahnFinal cs q \<longleftrightarrow>
     distinct q \<and> set q \<subseteq> oid ` set cs \<and>
     (\<forall>c\<in>set cs. (\<forall>p\<in>set (resolved cs c). p \<in> set q) \<longrightarrow> oid c \<in> set q) \<and>
     (\<forall>j<length q. \<forall>c\<in>set cs. oid c = q ! j \<longrightarrow> (\<forall>p\<in>set (resolved cs c). p \<in> set (take j q)))"

text \<open>The resolved parent references as edges from child to parent.\<close>

definition resolvedEdges :: "CommitNode list \<Rightarrow> (string \<times> string) set" where
  "resolvedEdges commits = {(oid c, p) | c p. c \<in> set commits \<and> p \<in> set (resolved commits c)}"

text \<open>The number of parent references that resolve to an identifier of the list.\<close>

definition resolvedRefs :: "CommitNode list \<Rightarrow> nat" where
  "resolvedRefs commits =
     sum_list (map (\<lambda>c. length (filter (\<lambda>p. p \<in> set (map oid commits)) (parents c))) commits)"

text \<open>The node list of \<open>computeLayout\<close> on a non-empty commit list.\<close>

definition layoutNodes :: "CommitNode list \<Rightarrow> LayoutNode list" where
  "layoutNodes cs = map (\<lambda>(commit, rw). mkNode (assignColumns cs) commit rw)
                       (zip (sortNewestFirst cs) [0..<length (sortNewestFirst cs)])"

section \<open>Example commit lists\<close>

definition mkCommit :: "string \<Rightarrow> string list \<Rightarrow> int \<Rightarrow> CommitNode" where
  "mkCommit i ps t =
     \<lparr>oid = i, message = ''Commit'', parents = ps, timestamp = t, refs = [], isHead = False\<rparr>"

definition chain3 :: "CommitNode list" where
  "chain3 = [mkCommit ''a'' [] 100, mkCommit ''b'' [''a''] 200, mkCommit ''c'' [''b'', ''zz''] 300]"

text \<open>A cycle (\<open>x\<close>, \<open>y\<close>), a root and a commit with a dangling parent.\<close>

definition tangled :: "CommitNode list" where
  "tangled = [mkCommit ''x'' [''y''] 1, mkCommit ''y'' [''x''] 2, mkCommit ''r'' [] 3,
              mkCommit ''d'' [''gone'', ''r''] 4]"

section \<open>Example quadtree inputs\<close>

definition box100 :: BBox where
  "box100 = \<lparr>b_x = 0, b_y = 0, b_width = 100, b_height = 100\<rparr>"

definition ops3 :: "(string \<times> real \<times> real) list" where
  "ops3 = [(''A'', 10, 10), (''B'', 50, 50), (''C'', 90, 90)]"


section \<open>Properties of the layout\<close>

lemma length_edgesOf: "length (edgesOf m node ps) = length (filter (\<lambda>p. p \<in> dom m) ps)"
  by (induction ps) (auto split: option.splits)

lemma dom_fold_nodeMap:
  "dom (fold (\<lambda>n m. m(n_oid n \<mapsto> n)) ns m0) = dom m0 \<union> set (map n_oid ns)"
  by (induction ns arbitrary: m0) auto

lemma n_oid_mkNode [simp]: "n_oid (mkNode cols c r) = oid c"
  by (simp add: mkNode_def Let_def)

lemma n_parents_mkNode [simp]: "n_parents (mkNode cols c r) = parents c"
  by (simp add: mkNode_def Let_def)

lemma map_zip_fst_only:
  "length xs = length ys \<Longrightarrow> map (\<lambda>x. f (fst x)) (zip xs ys) = map f xs"
  by (induction xs ys rule: list_induct2) auto

lemma mset_sortNewestFirst [simp]: "mset (sortNewestFirst cs) = mset cs"
  by (simp add: sortNewestFirst_def)

lemma set_sortNewestFirst [simp]: "set (sortNewestFirst cs) = set cs"
  by (simp add: sortNewestFirst_def)

lemma length_sortNewestFirst [simp]: "length (sortNewestFirst cs) = length cs"
  by (simp add: sortNewestFirst_def)

lemma sum_list_sortNewestFirst:
  "sum_list (map f (sortNewestFirst cs)) = sum_list (map (f :: CommitNode \<Rightarrow> nat) cs)"
proof -
  have "sum_mset (image_mset f (mset (sortNewestFirst cs))) = sum_mset (image_mset f (mset cs))"
    by simp
  then show ?thesis by (simp only: sum_mset_sum_list [symmetric] mset_map)
qed

text \<open>
  Claim C1, as stated: for the empty commit list \<open>computeLayout\<close> returns no nodes, no
  edges, and a width and a height both at a positive floor. The short-circuit of the
  source returns width 0 and height 0, so the positive floor fails there.
\<close>

theorem computeLayout_empty_not_floored:
  "\<not> (0 < width (computeLayout []) \<and> 0 < height (computeLayout []))"
  by (simp add: computeLayout_def)

text \<open>
  Claim C1, amended: for the empty commit list \<open>computeLayout\<close> returns the layout with
  an empty node list, an empty edge list, width 0 and height 0.
\<close>

theorem computeLayout_empty:
  "computeLayout [] = \<lparr>nodes = [], edges = [], width = 0, height = 0\<rparr>"
  by (simp add: computeLayout_def)

text \<open>
  Claim C4: \<open>computeLayout\<close> returns exactly one layout node per input commit, and as
  many edges as there are parent references that resolve to an identifier of the input
  list. This holds for every commit list, so in particular for those with pairwise
  distinct identifiers.
\<close>

theorem computeLayout_counts:
  "length (nodes (computeLayout cs)) = length cs
   \<and> length (edges (computeLayout cs)) = resolvedRefs cs"
proof (cases "cs = []")
  case True
  then show ?thesis by (simp add: computeLayout_def resolvedRefs_def)
next
  case False
  define ns where "ns = map (\<lambda>(commit, rw). mkNode (assignColumns cs) commit rw)
     (zip (sortNewestFirst cs) [0..<length (sortNewestFirst cs)])"
  define nodeMap where "nodeMap = fold (\<lambda>n m. m(n_oid n \<mapsto> n)) ns Map.empty"
  have oids: "map n_oid ns = map oid (sortNewestFirst cs)"
    unfolding ns_def by (simp add: map_zip_fst_only case_prod_unfold comp_def)
  have dom: "dom nodeMap = set (map oid cs)"
    unfolding nodeMap_def dom_fold_nodeMap oids by simp
  have "length (concat (map (\<lambda>node. edgesOf nodeMap node (n_parents node)) ns))
     = sum_list (map (\<lambda>node. length (filter (\<lambda>p. p \<in> set (map oid cs)) (n_parents node))) ns)"
    by (simp add: length_concat comp_def length_edgesOf dom)
  also have "\<dots> = sum_list (map (\<lambda>c. length (filter (\<lambda>p. p \<in> set (map oid cs)) (parents c)))
                      (sortNewestFirst cs))"
    unfolding ns_def
    using map_zip_fst_only [of "sortNewestFirst cs" "[0..<length cs]"
        "\<lambda>c. length (filter (\<lambda>p. p \<in> set (map oid cs)) (parents c))"]
    by (simp add: comp_def case_prod_unfold)
  also have "\<dots> = resolvedRefs cs"
    unfolding resolvedRefs_def by (rule sum_list_sortNewestFirst)
  finally have e: "length (concat (map (\<lambda>node. edgesOf nodeMap node (n_parents node)) ns))
                   = resolvedRefs cs" .
  have n: "length ns = length cs" unfolding ns_def by simp
  show ?thesis using False e n
    unfolding computeLayout_def Let_def ns_def nodeMap_def by simp
qed

section \<open>Properties of the topological sort\<close>

lemma relax_length: "length (snd (relax cl (deg, q))) \<ge> length q"
proof (induction cl arbitrary: deg q)
  case Nil
  then show ?case by simp
next
  case (Cons child cs)
  define deg' where "deg' = AList.update child (getOr deg child 1 - 1) deg"
  show ?case
  proof (cases "getOr deg child 1 - 1 = 0")
    case True
    then have "relax (child # cs) (deg, q) = relax cs (deg', q @ [child])"
      by (simp add: Let_def deg'_def)
    then show ?thesis using Cons.IH[where deg=deg' and q="q @ [child]"] by simp
  next
    case False
    then have "relax (child # cs) (deg, q) = relax cs (deg', q)"
      by (simp add: Let_def deg'_def)
    then show ?thesis using Cons.IH[where deg=deg' and q=q] by simp
  qed
qed

lemma relax_measure:
  assumes "finite U" "set cl \<subseteq> U"
  shows "length (snd (relax cl (deg, q))) + card (pending U (fst (relax cl (deg, q))))
           \<le> length q + card (pending U deg)"
  using assms(2)
proof (induction cl arbitrary: deg q)
  case Nil
  then show ?case by simp
next
  case (Cons child cs)
  define newDeg where "newDeg = getOr deg child 1 - 1"
  define deg' where "deg' = AList.update child newDeg deg"
  have cU: "child \<in> U" "set cs \<subseteq> U" using Cons.prems by auto
  have fin: "finite (pending U deg)" using assms(1) by (simp add: pending_def)
  have other: "k \<noteq> child \<Longrightarrow> k \<in> pending U deg' \<longleftrightarrow> k \<in> pending U deg" for k
    by (simp add: pending_def deg'_def update_conv')
  show ?case
  proof (cases "newDeg = 0")
    case True
    have in1: "child \<in> pending U deg"
      using True cU(1) by (auto simp: pending_def newDeg_def getOr_def split: option.splits)
    have out1: "child \<notin> pending U deg'"
      using True by (simp add: pending_def deg'_def update_conv')
    have "pending U deg' = pending U deg - {child}"
    proof (rule set_eqI)
      fix k show "k \<in> pending U deg' \<longleftrightarrow> k \<in> pending U deg - {child}"
        using other[of k] out1 by (cases "k = child") simp_all
    qed
    then have c: "card (pending U deg') + 1 = card (pending U deg)"
      using card_Suc_Diff1[OF fin \<open>child \<in> pending U deg\<close>] by simp
    have r: "relax (child # cs) (deg, q) = relax cs (deg', q @ [child])"
      using True by (simp add: Let_def newDeg_def deg'_def)
    show ?thesis unfolding r using Cons.IH[OF cU(2), of deg' "q @ [child]"] c by simp
  next
    case False
    have "child \<in> pending U deg' \<Longrightarrow> child \<in> pending U deg"
      using False by (auto simp: pending_def deg'_def update_conv' newDeg_def getOr_def split: option.splits)
    then have "pending U deg' \<subseteq> pending U deg"
    proof (intro subsetI)
      fix k assume c: "child \<in> pending U deg' \<Longrightarrow> child \<in> pending U deg" and k: "k \<in> pending U deg'"
      show "k \<in> pending U deg" using other[of k] c k by (cases "k = child") simp_all
    qed
    then have c: "card (pending U deg') \<le> card (pending U deg)" using fin by (rule card_mono[rotated])
    have r: "relax (child # cs) (deg, q) = relax cs (deg', q)"
      using False by (simp add: Let_def newDeg_def deg'_def)
    show ?thesis unfolding r using Cons.IH[OF cU(2), of deg' q] c by simp
  qed
qed

termination kahnLoop
proof (relation "measure (\<lambda>(ch, deg, q, i, s).
         (length q - i) + card (pending (\<Union>e\<in>set ch. set (snd e)) deg))", goal_cases)
  case 1
  then show ?case by simp
next
  case (2 childrenOf inDegree queue queueIdx sorted_ids node p inDegree' queue')
  let ?U = "\<Union>e\<in>set childrenOf. set (snd e)"
  let ?cl = "getOr childrenOf node []"
  have r: "relax ?cl (inDegree, queue) = (inDegree', queue')" using 2(3,4) by simp
  have sub: "set ?cl \<subseteq> ?U"
  proof (cases "map_of childrenOf node")
    case None
    then show ?thesis by (simp add: getOr_def)
  next
    case (Some l)
    then have "(node, l) \<in> set childrenOf" by (rule map_of_SomeD)
    then have "set l \<subseteq> ?U" by force
    then show ?thesis using Some by (simp add: getOr_def)
  qed
  have fin: "finite ?U" by simp
  from relax_measure[OF fin sub, of inDegree queue] r
  have m: "length queue' + card (pending ?U inDegree') \<le> length queue + card (pending ?U inDegree)"
    by simp
  have l: "length queue \<le> length queue'" using relax_length[of queue ?cl inDegree] r by simp
  show ?case using m l 2(1) by simp
qed

lemma getOr_update: "getOr (AList.update k v m) k' d = (if k' = k then v else getOr m k' d)"
  by (simp add: getOr_def update_conv')

lemma countParents_spec:
  assumes "map_of deg co = Some d"
  shows "map_of (fst (countParents ids co ps (deg, ch)))
           = (map_of deg)(co \<mapsto> d + int (length (filter (\<lambda>p. p \<in> ids) ps)))
       \<and> (distinct (map fst deg) \<longrightarrow> distinct (map fst (fst (countParents ids co ps (deg, ch)))))
       \<and> (\<forall>p. getOr (snd (countParents ids co ps (deg, ch))) p []
              = getOr ch p [] @ replicate (count_list (filter (\<lambda>p. p \<in> ids) ps) p) co)"
  using assms
proof (induction ps arbitrary: deg ch d)
  case Nil
  then show ?case by (simp add: fun_upd_idem)
next
  case (Cons p ps)
  show ?case
  proof (cases "p \<in> ids")
    case False
    then show ?thesis using Cons.IH[OF Cons.prems, of ch] by simp
  next
    case True
    define deg1 where "deg1 = AList.update co (getOr deg co 0 + 1) deg"
    define ch1 where "ch1 = AList.update p (getOr ch p [] @ [co]) ch"
    have r: "countParents ids co (p # ps) (deg, ch) = countParents ids co ps (deg1, ch1)"
      using True by (simp add: deg1_def ch1_def)
    have d1: "map_of deg1 co = Some (d + 1)"
      using Cons.prems by (simp add: deg1_def update_conv' getOr_def)
    have m1: "map_of deg1 = (map_of deg)(co \<mapsto> d + 1)"
      using Cons.prems by (simp add: deg1_def update_conv' getOr_def)
    have dd: "distinct (map fst deg) \<Longrightarrow> distinct (map fst deg1)"
      by (simp add: deg1_def distinct_update)
    have c1: "getOr ch1 q [] = getOr ch q [] @ (if q = p then [co] else [])" for q
      by (simp add: ch1_def getOr_update)
    note ih = Cons.IH[OF d1, of ch1]
    have a: "map_of (fst (countParents ids co ps (deg1, ch1)))
           = (map_of deg)(co \<mapsto> d + int (length (filter (\<lambda>p. p \<in> ids) (p # ps))))"
    proof -
      have "map_of (fst (countParents ids co ps (deg1, ch1)))
              = (map_of deg1)(co \<mapsto> d + 1 + int (length (filter (\<lambda>p. p \<in> ids) ps)))"
        using ih by blast
      also have "\<dots> = (map_of deg)(co \<mapsto> d + int (length (filter (\<lambda>p. p \<in> ids) (p # ps))))"
        unfolding m1 using True by (intro ext) simp
      finally show ?thesis .
    qed
    have b: "getOr (snd (countParents ids co ps (deg1, ch1))) q []
              = getOr ch q [] @ replicate (count_list (filter (\<lambda>p. p \<in> ids) (p # ps)) q) co" for q
      using ih True unfolding c1 by (simp add: replicate_app_Cons_same)
    show ?thesis unfolding r using a b ih dd by blast
  qed
qed

lemma addCommit_spec:
  assumes "distinct (map fst (fst st))"
  shows "map_of (fst (addCommit ids c st))
           = (map_of (fst st))(oid c \<mapsto> getOr (fst st) (oid c) 0 + int (length (filter (\<lambda>p. p \<in> ids) (parents c))))
       \<and> distinct (map fst (fst (addCommit ids c st)))
       \<and> (\<forall>p. getOr (snd (addCommit ids c st)) p []
              = getOr (snd st) p [] @ replicate (count_list (filter (\<lambda>p. p \<in> ids) (parents c)) p) (oid c))"
proof (cases "map_of (fst st) (oid c)")
  case None
  define deg0 where "deg0 = AList.update (oid c) 0 (fst st)"
  have a: "addCommit ids c st = countParents ids (oid c) (parents c) (deg0, snd st)"
    using None by (simp add: addCommit_def deg0_def)
  have d0: "map_of deg0 (oid c) = Some 0" by (simp add: deg0_def update_conv')
  have dd: "distinct (map fst deg0)" using assms by (simp add: deg0_def distinct_update)
  have m0: "map_of deg0 = (map_of (fst st))(oid c \<mapsto> 0)" by (simp add: deg0_def update_conv')
  show ?thesis unfolding a
    using countParents_spec[OF d0, of ids "parents c" "snd st"] dd None
    unfolding m0 by (simp add: getOr_def)
next
  case (Some d)
  have a: "addCommit ids c st = countParents ids (oid c) (parents c) (fst st, snd st)"
    using Some by (simp add: addCommit_def)
  show ?thesis unfolding a
    using countParents_spec[OF Some, of ids "parents c" "snd st"] assms Some
    by (simp add: getOr_def)
qed

lemma count_list_replicate: "count_list (replicate n a) k = (if k = a then n else 0)"
  by (induction n) auto

lemma firstPass_fold:
  "distinct (map oid xs) \<Longrightarrow> firstPass ids xs (fold (addCommit ids) xs ([], []))"
proof (induction xs rule: rev_induct)
  case Nil
  then show ?case by (simp add: firstPass_def getOr_def)
next
  case (snoc x xs)
  define st where "st = fold (addCommit ids) xs ([], [])"
  define st' where "st' = addCommit ids x st"
  have f: "fold (addCommit ids) (xs @ [x]) ([], []) = st'" by (simp add: st'_def st_def)
  have dx: "distinct (map oid xs)" and nx: "oid x \<notin> oid ` set xs" using snoc.prems by auto
  have ih: "firstPass ids xs st" unfolding st_def by (rule snoc.IH[OF dx])
  have none: "map_of (fst st) (oid x) = None" using ih nx by (simp add: firstPass_def)
  have dst: "distinct (map fst (fst st))" using ih by (simp add: firstPass_def)
  note a = addCommit_spec[OF dst, of ids x, folded st'_def]
  have m: "map_of (fst st') = (map_of (fst st))(oid x \<mapsto> int (length (filter (\<lambda>p. p \<in> ids) (parents x))))"
    using a none by (simp add: getOr_def)
  have g: "getOr (snd st') p [] = getOr (snd st) p []
             @ replicate (count_list (filter (\<lambda>p. p \<in> ids) (parents x)) p) (oid x)" for p
    using a by blast
  have 1: "distinct (map fst (fst st'))" using a by blast
  have 2: "map_of (fst st') k = None" if "k \<notin> oid ` set (xs @ [x])" for k
    using that ih unfolding m by (simp add: firstPass_def)
  have 3: "map_of (fst st') (oid c) = Some (int (length (filter (\<lambda>p. p \<in> ids) (parents c))))"
    if "c \<in> set (xs @ [x])" for c
  proof (cases "oid c = oid x")
    case True
    then have "c = x" using that nx by (cases "c \<in> set xs") (auto simp: image_iff)
    then show ?thesis unfolding m by simp
  next
    case False
    then have "c \<in> set xs" using that by auto
    then show ?thesis using False ih unfolding m by (simp add: firstPass_def)
  qed
  have 4: "set (getOr (snd st') p []) \<subseteq> oid ` set (xs @ [x])" for p
  proof -
    have "set (getOr (snd st) p []) \<subseteq> oid ` set xs" using ih by (simp add: firstPass_def)
    then show ?thesis unfolding g by (auto simp: set_replicate_conv_if)
  qed
  have 5: "count_list (getOr (snd st') p []) (oid c) = count_list (filter (\<lambda>p. p \<in> ids) (parents c)) p"
    if "c \<in> set (xs @ [x])" for c p
  proof (cases "oid c = oid x")
    case True
    then have cx: "c = x" using that nx by (cases "c \<in> set xs") (auto simp: image_iff)
    have "oid x \<notin> set (getOr (snd st) p [])" using ih nx by (auto simp: firstPass_def)
    then have "count_list (getOr (snd st) p []) (oid x) = 0" by (rule count_notin)
    then show ?thesis unfolding g cx by (simp add: count_list_replicate)
  next
    case False
    then have "c \<in> set xs" using that by auto
    then show ?thesis using False ih unfolding g by (simp add: firstPass_def count_list_replicate)
  qed
  show ?case unfolding f firstPass_def using 1 2 3 4 5 by blast
qed

lemma relax_spec:
  assumes "\<forall>k\<in>set cl. \<exists>d. map_of deg k = Some d \<and> int (count_list cl k) \<le> d"
  shows "\<exists>xs. snd (relax cl (deg, q)) = q @ xs \<and> distinct xs \<and>
           set xs = {k \<in> set cl. map_of deg k = Some (int (count_list cl k))} \<and>
           (\<forall>k. map_of (fst (relax cl (deg, q))) k
                  = map_option (\<lambda>d. d - int (count_list cl k)) (map_of deg k))"
  using assms
proof (induction cl arbitrary: deg q)
  case Nil
  then show ?case by (simp add: option.map_ident)
next
  case (Cons child cs)
  obtain d0 where d0: "map_of deg child = Some d0" "int (count_list cs child) + 1 \<le> d0"
    using Cons.prems by auto
  define deg' where "deg' = AList.update child (d0 - 1) deg"
  define q1 where "q1 = (if d0 - 1 = 0 then q @ [child] else q)"
  have r: "relax (child # cs) (deg, q) = relax cs (deg', q1)"
    using d0(1) by (simp add: Let_def getOr_def deg'_def q1_def)
  have m': "map_of deg' k = (if k = child then Some (d0 - 1) else map_of deg k)" for k
    by (simp add: deg'_def update_conv')
  have pre: "\<forall>k\<in>set cs. \<exists>d. map_of deg' k = Some d \<and> int (count_list cs k) \<le> d"
  proof
    fix k assume k: "k \<in> set cs"
    show "\<exists>d. map_of deg' k = Some d \<and> int (count_list cs k) \<le> d"
    proof (cases "k = child")
      case True
      then show ?thesis using d0(2) m' by simp
    next
      case False
      then show ?thesis using Cons.prems k m' by auto
    qed
  qed
  from Cons.IH[OF pre, of q1] obtain xs where xs:
    "snd (relax cs (deg', q1)) = q1 @ xs" "distinct xs"
    "set xs = {k \<in> set cs. map_of deg' k = Some (int (count_list cs k))}"
    "\<And>k. map_of (fst (relax cs (deg', q1))) k
            = map_option (\<lambda>d. d - int (count_list cs k)) (map_of deg' k)"
    by blast
  have fin: "map_of (fst (relax cs (deg', q1))) k
               = map_option (\<lambda>d. d - int (count_list (child # cs) k)) (map_of deg k)" for k
    unfolding xs(4) m' using d0(1) by (cases "k = child") simp_all
  have other: "k \<in> set xs \<longleftrightarrow> k \<in> set cs \<and> map_of deg k = Some (int (count_list (child # cs) k))"
    if "k \<noteq> child" for k
    unfolding xs(3) using that m' by simp
  have cin: "child \<in> set xs \<longleftrightarrow> child \<in> set cs \<and> d0 = int (count_list cs child) + 1"
    unfolding xs(3) using m' by auto
  show ?case
  proof (cases "d0 - 1 = 0")
    case True
    then have c0: "count_list cs child = 0" "d0 = 1" using d0(2) by auto
    then have nin: "child \<notin> set cs" by (simp add: count_list_0_iff)
    then have nx: "child \<notin> set xs" using cin by simp
    have s: "set (child # xs) = {k \<in> set (child # cs). map_of deg k = Some (int (count_list (child # cs) k))}"
    proof (rule set_eqI)
      fix k show "k \<in> set (child # xs) \<longleftrightarrow>
          k \<in> {k \<in> set (child # cs). map_of deg k = Some (int (count_list (child # cs) k))}"
      proof (cases "k = child")
        case True
        then show ?thesis using d0(1) c0 by simp
      next
        case False
        then show ?thesis using other[OF False] by simp
      qed
    qed
    have q1e: "q1 = q @ [child]" using True by (simp add: q1_def)
    have "snd (relax (child # cs) (deg, q)) = q @ (child # xs)"
      unfolding r xs(1) unfolding q1e by simp
    moreover have "distinct (child # xs)" using nx xs(2) by simp
    ultimately show ?thesis using s fin unfolding r by blast
  next
    case False
    have s: "set xs = {k \<in> set (child # cs). map_of deg k = Some (int (count_list (child # cs) k))}"
    proof (rule set_eqI)
      fix k show "k \<in> set xs \<longleftrightarrow>
          k \<in> {k \<in> set (child # cs). map_of deg k = Some (int (count_list (child # cs) k))}"
      proof (cases "k = child")
        case True
        have "d0 = int (count_list cs child) + 1 \<Longrightarrow> child \<in> set cs"
          using False by (cases "count_list cs child = 0") (auto simp: count_list_0_iff)
        then show ?thesis unfolding True using cin d0(1) by auto
      next
        case False
        then show ?thesis using other[OF False] by simp
      qed
    qed
    have q1e: "q1 = q" using False by (simp add: q1_def)
    have "snd (relax (child # cs) (deg, q)) = q @ xs"
      unfolding r xs(1) unfolding q1e by simp
    then show ?thesis using s fin xs(2) unfolding r by blast
  qed
qed

lemma filter_split_count:
  "node \<notin> P \<Longrightarrow> length (filter (\<lambda>p. p \<notin> P) xs)
     = count_list xs node + length (filter (\<lambda>p. p \<notin> insert node P) xs)"
  by (induction xs) auto

lemma kahn_step:
  assumes g: "graphOf cs ch" and inv: "kahnInv cs deg queue idx srt" and lt: "idx < length queue"
    and r: "relax (getOr ch (queue ! idx) []) (deg, queue) = (deg', queue')"
  shows "kahnInv cs deg' queue' (idx + 1) (srt @ [queue ! idx])"
proof -
  define node where "node = queue ! idx"
  define cl where "cl = getOr ch node []"
  define P where "P = set (take idx queue)"
  define P' where "P' = insert node P"
  have dq: "distinct queue" and sub: "set queue \<subseteq> oid ` set cs" and srt: "srt = take idx queue"
    using inv by (simp_all add: kahnInv_def)
  have I2: "\<And>c. c \<in> set cs \<Longrightarrow> map_of deg (oid c)
         = Some (int (length (filter (\<lambda>p. p \<notin> P) (resolved cs c))))"
    using inv by (simp add: kahnInv_def P_def)
  have I3: "\<And>c. c \<in> set cs \<Longrightarrow> (\<forall>p\<in>set (resolved cs c). p \<in> P) \<Longrightarrow> oid c \<in> set queue"
    using inv by (simp add: kahnInv_def P_def)
  have I4: "\<And>j c p. j < length queue \<Longrightarrow> c \<in> set cs \<Longrightarrow> oid c = queue ! j \<Longrightarrow>
              p \<in> set (resolved cs c) \<Longrightarrow> p \<in> set (take j queue) \<and> p \<in> P"
    using inv unfolding kahnInv_def P_def by blast
  have tk: "take (Suc idx) queue = take idx queue @ [node]"
    unfolding node_def using lt by (rule take_Suc_conv_app_nth)
  have P'eq: "P' = set (take (Suc idx) queue)" unfolding tk P'_def P_def by simp
  have nP: "node \<notin> P"
  proof -
    have "distinct (take (Suc idx) queue)" using dq by (rule distinct_take)
    then show ?thesis unfolding tk P_def by simp
  qed
  have clsub: "set cl \<subseteq> oid ` set cs" using g by (simp add: graphOf_def cl_def)
  have cnt: "count_list cl (oid c) = count_list (resolved cs c) node" if "c \<in> set cs" for c
    using g that by (simp add: graphOf_def cl_def)
  have uniq: "c = c'" if "c \<in> set cs" "c' \<in> set cs" "oid c = oid c'" for c c'
    using g that unfolding graphOf_def by (meson distinct_map inj_onD)
  have degsplit: "map_of deg (oid c) = Some (int (count_list cl (oid c))
                    + int (length (filter (\<lambda>p. p \<notin> P') (resolved cs c))))" if "c \<in> set cs" for c
    using I2[OF that] filter_split_count[OF nP, of "resolved cs c"] cnt[OF that]
    unfolding P'_def by simp
  have pre: "\<forall>k\<in>set cl. \<exists>d. map_of deg k = Some d \<and> int (count_list cl k) \<le> d"
  proof
    fix k assume "k \<in> set cl"
    then obtain c where c: "c \<in> set cs" "k = oid c" using clsub by auto
    show "\<exists>d. map_of deg k = Some d \<and> int (count_list cl k) \<le> d"
      unfolding c(2) using degsplit[OF c(1)] by simp
  qed
  from relax_spec[OF pre, of queue] obtain xs where xs:
    "queue' = queue @ xs" "distinct xs"
    "set xs = {k \<in> set cl. map_of deg k = Some (int (count_list cl k))}"
    "\<And>k. map_of deg' k = map_option (\<lambda>d. d - int (count_list cl k)) (map_of deg k)"
    unfolding cl_def node_def r by auto
  have inxs: "oid c \<in> set xs \<longleftrightarrow> node \<in> set (resolved cs c) \<and> (\<forall>p\<in>set (resolved cs c). p \<in> P')"
    if c: "c \<in> set cs" for c
  proof -
    have a: "oid c \<in> set cl \<longleftrightarrow> node \<in> set (resolved cs c)"
      using cnt[OF c] count_list_0_iff[of cl "oid c"] count_list_0_iff[of "resolved cs c" node]
      by simp
    have b: "map_of deg (oid c) = Some (int (count_list cl (oid c)))
              \<longleftrightarrow> filter (\<lambda>p. p \<notin> P') (resolved cs c) = []"
      using degsplit[OF c] by simp
    have "filter (\<lambda>p. p \<notin> P') (resolved cs c) = [] \<longleftrightarrow> (\<forall>p\<in>set (resolved cs c). p \<in> P')"
      by (simp add: filter_empty_conv)
    then show ?thesis unfolding xs(3) using a b by simp
  qed
  have disj: "set xs \<inter> set queue = {}"
  proof (rule ccontr)
    assume "set xs \<inter> set queue \<noteq> {}"
    then obtain k where k: "k \<in> set xs" "k \<in> set queue" by blast
    then obtain c where c: "c \<in> set cs" "k = oid c" using sub by auto
    obtain j where j: "j < length queue" "queue ! j = k" using k(2) by (auto simp: in_set_conv_nth)
    have "node \<in> set (resolved cs c)" using k(1) inxs[OF c(1)] c(2) by simp
    then have "node \<in> P" using I4[OF j(1) c(1)] j(2) c(2) by simp
    then show False using nP by simp
  qed
  have 1: "idx + 1 \<le> length queue'" using lt xs(1) by simp
  have 2: "distinct queue'" unfolding xs(1) using dq xs(2) disj by auto
  have 3: "set queue' \<subseteq> oid ` set cs"
    unfolding xs(1) using sub clsub xs(3) by auto
  have tq': "take (idx + 1) queue' = take (Suc idx) queue" unfolding xs(1) using lt by simp
  have 4: "srt @ [queue ! idx] = take (idx + 1) queue'"
    unfolding tq' tk srt node_def by simp
  have Pq': "set (take (idx + 1) queue') = P'" unfolding tq' P'eq by simp
  have 5: "map_of deg' (oid c)
         = Some (int (length (filter (\<lambda>p. p \<notin> set (take (idx + 1) queue')) (resolved cs c))))"
    if "c \<in> set cs" for c
    unfolding Pq' xs(4) using degsplit[OF that] by simp
  have 6: "oid c \<in> set queue'"
    if c: "c \<in> set cs" and all: "\<forall>p\<in>set (resolved cs c). p \<in> set (take (idx + 1) queue')" for c
  proof (cases "node \<in> set (resolved cs c)")
    case True
    then have "oid c \<in> set xs" using inxs[OF c] all unfolding Pq' by simp
    then show ?thesis unfolding xs(1) by simp
  next
    case False
    then have "\<forall>p\<in>set (resolved cs c). p \<in> P" using all unfolding Pq' P'_def by auto
    then have "oid c \<in> set queue" by (rule I3[OF c])
    then show ?thesis unfolding xs(1) by simp
  qed
  have 7: "p \<in> set (take j queue') \<and> p \<in> set (take (idx + 1) queue')"
    if j: "j < length queue'" and c: "c \<in> set cs" and e: "oid c = queue' ! j"
      and p: "p \<in> set (resolved cs c)" for j c p
  proof (cases "j < length queue")
    case True
    then have "oid c = queue ! j" using e unfolding xs(1) by (simp add: nth_append)
    then have "p \<in> set (take j queue) \<and> p \<in> P" using I4[OF True c _ p] by simp
    moreover have "take j queue' = take j queue" unfolding xs(1) using True by simp
    ultimately show ?thesis unfolding Pq' P'_def by simp
  next
    case False
    then have "queue' ! j = xs ! (j - length queue)" unfolding xs(1) by (simp add: nth_append)
    moreover have "j - length queue < length xs" using j False unfolding xs(1) by simp
    ultimately have "oid c \<in> set xs" using e by (metis nth_mem)
    then have pp: "p \<in> P'" using inxs[OF c] p by simp
    have "idx + 1 \<le> j" using False lt by simp
    then have "set (take (idx + 1) queue') \<subseteq> set (take j queue')" by (rule set_take_subset_set_take)
    then show ?thesis using pp unfolding Pq' by auto
  qed
  show ?thesis unfolding kahnInv_def using 1 2 3 4 5 6 7 by blast
qed

lemma kahnLoop_final:
  "graphOf cs ch \<Longrightarrow> kahnInv cs deg queue idx srt \<Longrightarrow> kahnFinal cs (kahnLoop ch deg queue idx srt)"
proof (induction ch deg queue idx srt rule: kahnLoop.induct)
  case (1 ch deg queue idx srt)
  show ?case
  proof (cases "idx < length queue")
    case True
    obtain deg' queue' where r: "relax (getOr ch (queue ! idx) []) (deg, queue) = (deg', queue')"
      by (cases "relax (getOr ch (queue ! idx) []) (deg, queue)") auto
    have e: "kahnLoop ch deg queue idx srt = kahnLoop ch deg' queue' (idx + 1) (srt @ [queue ! idx])"
      by (subst kahnLoop.simps) (simp add: True r Let_def)
    have inv': "kahnInv cs deg' queue' (idx + 1) (srt @ [queue ! idx])"
      by (rule kahn_step[OF "1.prems"(1,2) True r])
    show ?thesis unfolding e
      by (rule "1.IH"[OF True refl refl r[symmetric] "1.prems"(1) inv'])
  next
    case False
    have le: "idx \<le> length queue" using "1.prems"(2) by (simp add: kahnInv_def)
    then have tk: "take idx queue = queue" using False by simp
    have e: "kahnLoop ch deg queue idx srt = queue"
      using "1.prems"(2) False tk by (subst kahnLoop.simps) (simp add: kahnInv_def)
    show ?thesis unfolding e kahnFinal_def
      using "1.prems"(2) unfolding kahnInv_def tk by blast
  qed
qed

lemma kahn_init:
  assumes d: "distinct (map oid cs)"
    and st: "fold (addCommit (set (map oid cs))) cs ([], []) = (deg, ch)"
  shows "graphOf cs ch \<and> kahnInv cs deg (map fst (filter (\<lambda>(k, deg). deg = 0) deg)) 0 []"
proof -
  have fp: "firstPass (set (map oid cs)) cs (deg, ch)"
    using firstPass_fold[OF d, of "set (map oid cs)"] st by simp
  have dk: "distinct (map fst deg)" using fp by (simp add: firstPass_def)
  have none: "\<And>k. k \<notin> oid ` set cs \<Longrightarrow> map_of deg k = None" using fp by (simp add: firstPass_def)
  have dg: "\<And>c. c \<in> set cs \<Longrightarrow> map_of deg (oid c) = Some (int (length (resolved cs c)))"
    using fp by (simp add: firstPass_def resolved_def)
  have g: "graphOf cs ch" using fp d by (simp add: firstPass_def graphOf_def resolved_def)
  define queue where "queue = map fst (filter (\<lambda>(k, deg). deg = 0) deg)"
  have inq: "k \<in> set queue \<longleftrightarrow> map_of deg k = Some 0" for k
  proof
    assume "k \<in> set queue"
    then have "(k, 0) \<in> set deg" unfolding queue_def by auto
    then show "map_of deg k = Some 0" using dk by simp
  next
    assume "map_of deg k = Some 0"
    then have "(k, 0) \<in> set deg" by (rule map_of_SomeD)
    then show "k \<in> set queue" unfolding queue_def by force
  qed
  have 2: "distinct queue" unfolding queue_def using dk by (rule distinct_map_filter)
  have 3: "set queue \<subseteq> oid ` set cs"
  proof
    fix k assume "k \<in> set queue"
    then have "map_of deg k = Some 0" using inq by simp
    then show "k \<in> oid ` set cs" using none[of k] by (cases "k \<in> oid ` set cs") simp_all
  qed
  have 5: "map_of deg (oid c) = Some (int (length (filter (\<lambda>p. p \<notin> set (take 0 queue)) (resolved cs c))))"
    if "c \<in> set cs" for c using dg[OF that] by simp
  have 6: "oid c \<in> set queue"
    if "c \<in> set cs" "\<forall>p\<in>set (resolved cs c). p \<in> set (take 0 queue)" for c
  proof -
    have "set (resolved cs c) = {}" using that(2) by auto
    then have "resolved cs c = []" by simp
    then show ?thesis using dg[OF that(1)] inq by simp
  qed
  have 7: "p \<in> set (take j queue) \<and> p \<in> set (take 0 queue)"
    if "j < length queue" "c \<in> set cs" "oid c = queue ! j" "p \<in> set (resolved cs c)" for j c p
  proof -
    have "oid c \<in> set queue" using that(1,3) by simp
    then have "map_of deg (oid c) = Some 0" using inq by simp
    then have "resolved cs c = []" using dg[OF that(2)] by simp
    then show ?thesis using that(4) by simp
  qed
  have c1: "0 \<le> length queue" and c4: "[] = take 0 queue" by simp_all
  have c5: "\<forall>c\<in>set cs. map_of deg (oid c)
         = Some (int (length (filter (\<lambda>p. p \<notin> set (take 0 queue)) (resolved cs c))))"
    using 5 by blast
  have c6: "\<forall>c\<in>set cs. (\<forall>p\<in>set (resolved cs c). p \<in> set (take 0 queue)) \<longrightarrow> oid c \<in> set queue"
    using 6 by blast
  have c7: "\<forall>j<length queue. \<forall>c\<in>set cs. oid c = queue ! j \<longrightarrow>
         (\<forall>p\<in>set (resolved cs c). p \<in> set (take j queue) \<and> p \<in> set (take 0 queue))"
    using 7 by blast
  have "kahnInv cs deg queue 0 []"
    unfolding kahnInv_def by (intro conjI) (rule c1 2 3 c4 c5 c6 c7)+
  then show ?thesis using g unfolding queue_def by simp
qed

lemma topologicalSort_final:
  assumes d: "distinct (map oid cs)"
  shows "\<exists>q. kahnFinal cs q \<and> topologicalSort cs = q @ filter (\<lambda>k. k \<notin> set q) (map oid cs)"
proof -
  obtain deg ch where st: "fold (addCommit (set (map oid cs))) cs ([], []) = (deg, ch)"
    by (cases "fold (addCommit (set (map oid cs))) cs ([], [])") auto
  define q where "q = kahnLoop ch deg (map fst (filter (\<lambda>(k, deg). deg = 0) deg)) 0 []"
  have "kahnFinal cs q" unfolding q_def
    using kahn_init[OF d st] kahnLoop_final by blast
  moreover have "topologicalSort cs = q @ filter (\<lambda>k. k \<notin> set q) (map oid cs)"
    unfolding topologicalSort_def Let_def st q_def by simp
  ultimately show ?thesis by blast
qed

text \<open>
  Claim C2: for every commit list with pairwise distinct identifiers, with dangling parent
  references or cycles or not, \<open>topologicalSort\<close> returns a permutation of the input
  identifiers: each appears exactly once.
\<close>

theorem topologicalSort_permutation:
  assumes "distinct (map oid cs)"
  shows "mset (topologicalSort cs) = mset (map oid cs) \<and> distinct (topologicalSort cs)"
proof -
  obtain q where q: "kahnFinal cs q" "topologicalSort cs = q @ filter (\<lambda>k. k \<notin> set q) (map oid cs)"
    using topologicalSort_final[OF assms] by blast
  have dq: "distinct q" and sq: "set q \<subseteq> set (map oid cs)" using q(1) by (simp_all add: kahnFinal_def)
  have dist: "distinct (topologicalSort cs)" unfolding q(2) using dq assms by auto
  have "set (topologicalSort cs) = set (map oid cs)" unfolding q(2) using sq by auto
  then have "mset (topologicalSort cs) = mset (map oid cs)"
    using set_eq_iff_mset_eq_distinct[OF dist assms] by blast
  then show ?thesis using dist by simp
qed

text \<open>
  Claim C3: for every commit list with pairwise distinct identifiers whose resolved parent
  references form an acyclic graph, every resolved parent stands at a strictly smaller
  index of the output of \<open>topologicalSort\<close> than each commit that lists it.
\<close>

theorem topologicalSort_parents_first:
  assumes d: "distinct (map oid cs)" and ac: "acyclic (resolvedEdges cs)"
    and e: "(child, par) \<in> resolvedEdges cs"
  shows "\<exists>i j. i < j \<and> j < length (topologicalSort cs) \<and>
           topologicalSort cs ! i = par \<and> topologicalSort cs ! j = child"
proof -
  obtain q where q: "kahnFinal cs q" "topologicalSort cs = q @ filter (\<lambda>k. k \<notin> set q) (map oid cs)"
    using topologicalSort_final[OF d] by blast
  have ready: "\<And>c. c \<in> set cs \<Longrightarrow> (\<forall>p\<in>set (resolved cs c). p \<in> set q) \<Longrightarrow> oid c \<in> set q"
    using q(1) unfolding kahnFinal_def by blast
  have before: "\<And>j c p. j < length q \<Longrightarrow> c \<in> set cs \<Longrightarrow> oid c = q ! j \<Longrightarrow>
                   p \<in> set (resolved cs c) \<Longrightarrow> p \<in> set (take j q)"
    using q(1) unfolding kahnFinal_def by blast
  have fin: "finite (resolvedEdges cs)"
  proof (rule finite_subset)
    show "resolvedEdges cs \<subseteq> oid ` set cs \<times> oid ` set cs"
      by (auto simp: resolvedEdges_def resolved_def)
    show "finite (oid ` set cs \<times> oid ` set cs)" by simp
  qed
  have wf: "wf ((resolvedEdges cs)\<inverse>)" using fin ac by (rule finite_acyclic_wf_converse)
  have all: "oid ` set cs \<subseteq> set q"
  proof (rule ccontr)
    assume "\<not> oid ` set cs \<subseteq> set q"
    then obtain k where k: "k \<in> oid ` set cs - set q" by blast
    from wfE_min[OF wf k] obtain z where z: "z \<in> oid ` set cs - set q"
      "\<And>y. (y, z) \<in> (resolvedEdges cs)\<inverse> \<Longrightarrow> y \<notin> oid ` set cs - set q" by blast
    obtain c where c: "c \<in> set cs" "z = oid c" using z(1) by auto
    have "p \<in> set q" if p: "p \<in> set (resolved cs c)" for p
    proof -
      have "(z, p) \<in> resolvedEdges cs" unfolding resolvedEdges_def using c p by blast
      then have "p \<notin> oid ` set cs - set q" using z(2)[of p] by simp
      moreover have "p \<in> oid ` set cs" using p by (simp add: resolved_def)
      ultimately show ?thesis by simp
    qed
    then have "oid c \<in> set q" using ready[OF c(1)] by simp
    then show False using z(1) c(2) by simp
  qed
  have out: "topologicalSort cs = q" unfolding q(2) using all by (simp add: filter_empty_conv subset_iff)
  obtain c where c: "c \<in> set cs" "child = oid c" "par \<in> set (resolved cs c)"
    using e unfolding resolvedEdges_def by blast
  have "child \<in> set q" using all c by auto
  then obtain j where j: "j < length q" "q ! j = child" by (auto simp: in_set_conv_nth)
  have "par \<in> set (take j q)" using before[OF j(1) c(1) _ c(3)] j(2) c(2) by simp
  then obtain i where i: "i < length (take j q)" "take j q ! i = par" by (auto simp: in_set_conv_nth)
  then have "i < j" "q ! i = par" by simp_all
  then show ?thesis unfolding out using j by blast
qed

lemma topologicalSort_tangled: "topologicalSort tangled = [''r'', ''d'', ''x'', ''y'']"
  by code_simp

lemma topologicalSort_chain3: "topologicalSort chain3 = [''a'', ''b'', ''c'']"
  by code_simp

theorem topologicalSort_permutation_witness:
  "distinct (map oid tangled) \<and> topologicalSort tangled = [''r'', ''d'', ''x'', ''y''] \<and>
   mset (topologicalSort tangled) = mset (map oid tangled) \<and> distinct (topologicalSort tangled)"
proof -
  have d: "distinct (map oid tangled)" by (simp add: tangled_def mkCommit_def)
  show ?thesis using topologicalSort_permutation[OF d] d topologicalSort_tangled by simp
qed

lemma resolvedEdges_alt:
  "resolvedEdges cs = (\<Union>c\<in>set cs. (\<lambda>p. (oid c, p)) ` set (resolved cs c))"
  unfolding resolvedEdges_def by blast

lemma resolvedEdges_chain3: "resolvedEdges chain3 = {(''b'', ''a''), (''c'', ''b'')}"
  unfolding resolvedEdges_alt by (auto simp: resolved_def chain3_def mkCommit_def)

lemma acyclic_chain3: "acyclic (resolvedEdges chain3)"
proof -
  define f :: "string \<Rightarrow> nat" where
    "f = (\<lambda>s. if s = ''a'' then 0 else if s = ''b'' then 1 else 2)"
  have "(resolvedEdges chain3)\<inverse> \<subseteq> measure f"
    unfolding resolvedEdges_chain3 by (auto simp: f_def)
  then have "acyclic ((resolvedEdges chain3)\<inverse>)"
    using wf_acyclic[OF wf_measure] by (rule acyclic_subset[rotated])
  then show ?thesis by simp
qed

theorem topologicalSort_parents_first_witness:
  "distinct (map oid chain3) \<and> acyclic (resolvedEdges chain3) \<and>
   (''b'', ''a'') \<in> resolvedEdges chain3 \<and> topologicalSort chain3 = [''a'', ''b'', ''c''] \<and>
   (\<exists>i j. i < j \<and> j < length (topologicalSort chain3) \<and>
      topologicalSort chain3 ! i = ''a'' \<and> topologicalSort chain3 ! j = ''b'')"
proof -
  have d: "distinct (map oid chain3)" by (simp add: chain3_def mkCommit_def)
  have e: "(''b'', ''a'') \<in> resolvedEdges chain3" unfolding resolvedEdges_chain3 by simp
  show ?thesis using topologicalSort_parents_first[OF d acyclic_chain3 e] d acyclic_chain3 e topologicalSort_chain3 by simp
qed

section \<open>Properties of the lane assignment\<close>

lemma fork_sorted_run:
  assumes d: "x \<noteq> y" "x \<noteq> r" "y \<noteq> r"
    and X: "oid X = x" "parents X = [r]"
    and Y: "oid Y = y" "parents Y = [r]"
    and R: "oid R = r" "parents R = []"
  shows "columns (fold (placeCommit {r, x, y}) [X, Y, R]
            \<lparr>columns = Map.empty, activeLanes = [], reservations = Map.empty\<rparr>)
         = [x \<mapsto> 0, y \<mapsto> 1, r \<mapsto> 0]"
  using d X Y R
  by (simp add: placeCommit_def firstFreeLane_def Let_def)

lemma three_perm:
  assumes "mset cs = mset [R, A, B]" "distinct [R, A, B]"
  shows "cs \<in> {[R,A,B],[R,B,A],[A,R,B],[A,B,R],[B,R,A],[B,A,R]}"
proof -
  have l: "length cs = 3" using arg_cong[OF assms(1), of size] by simp
  then obtain x y z where cs: "cs = [x,y,z]"
    by (auto simp: numeral_3_eq_3 length_Suc_conv)
  have s: "set cs = {R,A,B}" using arg_cong[OF assms(1), of set_mset] by simp
  have dd: "distinct cs" using mset_eq_imp_distinct_iff[OF assms(1)] assms(2) by simp
  have x: "x = R \<or> x = A \<or> x = B" using s unfolding cs by auto
  have y: "y = R \<or> y = A \<or> y = B" using s unfolding cs by auto
  have z: "z = R \<or> z = A \<or> z = B" using s unfolding cs by auto
  have m: "R \<in> {x,y,z}" "A \<in> {x,y,z}" "B \<in> {x,y,z}" using s unfolding cs by auto
  show ?thesis using x y z m dd unfolding cs by auto
qed

lemma sort_fork:
  assumes "timestamp R < timestamp A" "timestamp R < timestamp B"
    and "cs \<in> {[R,A,B],[R,B,A],[A,R,B],[A,B,R],[B,R,A],[B,A,R]}"
  shows "sortNewestFirst cs = [A, B, R] \<or> sortNewestFirst cs = [B, A, R]"
  using assms unfolding sortNewestFirst_def
  by (elim insertE emptyE) simp_all

text \<open>
  Claim C7: for a commit list made of exactly three commits with pairwise distinct
  identifiers, a root without parents and two children \<open>a\<close> and \<open>b\<close> whose only parent is the
  root and whose timestamps are strictly newer than the root's, in any input order,
  \<open>assignColumns\<close> gives the root's lane to exactly one of \<open>a\<close> and \<open>b\<close>, another lane to the
  other child, and uses exactly 2 distinct lanes.
\<close>

theorem assignColumns_fork:
  assumes ids: "distinct [r, a, b]"
    and R: "oid R = r" "parents R = []"
    and A: "oid A = a" "parents A = [r]" "timestamp R < timestamp A"
    and B: "oid B = b" "parents B = [r]" "timestamp R < timestamp B"
    and cs: "mset cs = mset [R, A, B]"
  shows "forkLanes (assignColumns cs) r a b"
proof -
  have na: "a \<noteq> b" "a \<noteq> r" "b \<noteq> r" "b \<noteq> a" using ids by auto
  have dr: "distinct [R, A, B]" using na R A B by auto
  have "set cs = {R, A, B}" using arg_cong[OF cs, of set_mset] by simp
  then have oids: "set (map oid cs) = {r, a, b}"
    using R(1) A(1) B(1) by simp
  have srt: "sortNewestFirst cs = [A, B, R] \<or> sortNewestFirst cs = [B, A, R]"
    by (rule sort_fork[OF A(3) B(3) three_perm[OF cs dr]])
  have 1: "assignColumns cs = [a \<mapsto> 0, b \<mapsto> 1, r \<mapsto> 0] \<or>
           assignColumns cs = [b \<mapsto> 0, a \<mapsto> 1, r \<mapsto> 0]"
    using srt
  proof
    assume s: "sortNewestFirst cs = [A, B, R]"
    show ?thesis unfolding assignColumns_def s oids
      using fork_sorted_run[OF na(1) na(2) na(3) A(1) A(2) B(1) B(2) R(1) R(2)] by simp
  next
    assume s: "sortNewestFirst cs = [B, A, R]"
    have e: "{r, a, b} = {r, b, a}" by auto
    show ?thesis unfolding assignColumns_def s oids e
      using fork_sorted_run[OF na(4) na(3) na(2) B(1) B(2) A(1) A(2) R(1) R(2)] by simp
  qed
  have ran1: "ran [a \<mapsto> 0::nat, b \<mapsto> 1, r \<mapsto> 0] = {0, 1}"
    using na by (auto simp: ran_def)
  have ran2: "ran [b \<mapsto> 0::nat, a \<mapsto> 1, r \<mapsto> 0] = {0, 1}"
    using na by (auto simp: ran_def)
  from 1 show ?thesis
  proof
    assume c: "assignColumns cs = [a \<mapsto> 0, b \<mapsto> 1, r \<mapsto> 0]"
    show ?thesis unfolding forkLanes_def c ran1 using na by simp
  next
    assume c: "assignColumns cs = [b \<mapsto> 0, a \<mapsto> 1, r \<mapsto> 0]"
    show ?thesis unfolding forkLanes_def c ran2 using na by simp
  qed
qed

theorem assignColumns_fork_witness:
  "forkLanes (assignColumns [mkCommit ''a'' [''root''] 200, mkCommit ''root'' [] 100,
                             mkCommit ''b'' [''root''] 201]) ''root'' ''a'' ''b''"
proof -
  have p: "mset [x, y, z] = mset [y, x, z]" for x y z :: CommitNode
    by (simp add: add_mset_commute)
  show ?thesis
    by (rule assignColumns_fork[OF _ _ _ _ _ _ _ _ _ p]) (simp_all add: mkCommit_def)
qed

section \<open>Properties of the quadtree\<close>











lemma bounds_subdivide [simp]: "bounds (subdivide n) = bounds n"
  by (simp add: subdivide_def split: prod.splits)























section \<open>Properties of the spatial index of a layout\<close>





lemma length_layoutNodes [simp]: "length (layoutNodes cs) = length cs"
  by (simp add: layoutNodes_def)







section \<open>Properties of the ancestry query\<close>

lemma map_of_buildCommitMap:
  "distinct (map oid cs) \<Longrightarrow>
     map_of (buildCommitMap cs) k = Some c \<longleftrightarrow> c \<in> set cs \<and> oid c = k"
proof (induction cs rule: rev_induct)
  case Nil
  then show ?case by (simp add: buildCommitMap_def)
next
  case (snoc x xs)
  have e: "map_of (buildCommitMap (xs @ [x])) = (map_of (buildCommitMap xs))(oid x \<mapsto> x)"
    by (simp add: buildCommitMap_def update_conv')
  have d: "distinct (map oid xs)" "oid x \<notin> oid ` set xs" using snoc.prems by auto
  show ?case
  proof (cases "k = oid x")
    case True
    have "c \<in> set xs \<Longrightarrow> oid c \<noteq> oid x" using d(2) by (metis imageI)
    then show ?thesis unfolding e using True by auto
  next
    case False
    then show ?thesis unfolding e using snoc.IH[OF d(1)] by auto
  qed
qed

lemma escape_visited:
  assumes "(v, a) \<in> E\<^sup>*" "v \<in> V" "a \<notin> V"
    and "\<forall>v\<in>V. \<forall>w. (v, w) \<in> E \<longrightarrow> w \<in> V \<or> w \<in> Q"
  shows "\<exists>q\<in>Q. (q, a) \<in> E\<^sup>*"
  using assms(1,2)
proof (induction rule: converse_rtrancl_induct)
  case base
  then show ?case using assms(3) by simp
next
  case (step v w)
  then show ?case using assms(4) by blast
qed

lemma succ_lookup:
  assumes "\<And>c. map_of m k = Some c \<longleftrightarrow> c \<in> set cs \<and> oid c = k"
  shows "(k, w) \<in> parentEdges cs \<longleftrightarrow>
         w \<in> set (case map_of m k of None \<Rightarrow> [] | Some node \<Rightarrow> parents node)"
proof (cases "map_of m k")
  case None
  have "oid c \<noteq> k" if "c \<in> set cs" for c
  proof
    assume "oid c = k"
    then have "map_of m k = Some c" using assms[of c] that by simp
    then show False using None by simp
  qed
  then have "(k, w) \<notin> parentEdges cs" unfolding parentEdges_def by blast
  then show ?thesis using None by simp
next
  case (Some node)
  have n: "node \<in> set cs" "oid node = k"
    using assms[of node] Some by simp_all
  have u: "c = node" if "c \<in> set cs" "oid c = k" for c
  proof -
    have "map_of m k = Some c" using assms[of c] that by simp
    then show ?thesis using Some by simp
  qed
  have "(k, w) \<in> parentEdges cs \<longleftrightarrow> w \<in> set (parents node)"
  proof
    assume "(k, w) \<in> parentEdges cs"
    then obtain c where c: "c \<in> set cs" "oid c = k" "w \<in> set (parents c)"
      unfolding parentEdges_def by blast
    then show "w \<in> set (parents node)" using u[OF c(1,2)] by simp
  next
    assume "w \<in> set (parents node)"
    then show "(k, w) \<in> parentEdges cs" unfolding parentEdges_def using n by blast
  qed
  then show ?thesis using Some by simp
qed

lemma bfsLoop_correct:
  "(\<And>k c. map_of m k = Some c \<longleftrightarrow> c \<in> set cs \<and> oid c = k) \<Longrightarrow>
         anc \<notin> visited \<Longrightarrow>
         \<forall>v\<in>visited. \<forall>w. (v, w) \<in> parentEdges cs \<longrightarrow> w \<in> visited \<or> w \<in> set queue \<Longrightarrow>
     bfsLoop m anc visited queue \<longleftrightarrow> (\<exists>q\<in>set queue. (q, anc) \<in> (parentEdges cs)\<^sup>*)"
proof (induction m anc visited queue rule: bfsLoop.induct)
  case (1 commitMap ancestor visited)
  show ?case by simp
next
  case (2 commitMap ancestor visited current rest)
  let ?E = "parentEdges cs"
  define R where "R = (\<lambda>q. (q, ancestor) \<in> ?E\<^sup>*)"
  have goal: "bfsLoop commitMap ancestor visited (current # rest) \<longleftrightarrow> R current \<or> (\<exists>q\<in>set rest. R q)"
  proof (cases "current = ancestor")
    case True
    have "R current" unfolding R_def True by (rule rtrancl_refl)
    then show ?thesis using True by simp
  next
    case False
    note ne = False
    show ?thesis
    proof (cases "current \<in> visited")
      case True
      have inv: "\<forall>v\<in>visited. \<forall>w. (v, w) \<in> ?E \<longrightarrow> w \<in> visited \<or> w \<in> set rest"
      proof (intro ballI allI impI)
        fix v w assume v: "v \<in> visited" and e: "(v, w) \<in> ?E"
        then have "w \<in> visited \<or> w \<in> set (current # rest)" using "2.prems"(3) by blast
        then show "w \<in> visited \<or> w \<in> set rest" using True by auto
      qed
      have esc: "\<exists>q\<in>set rest. R q" if "R current"
        using escape_visited[OF that[unfolded R_def] True "2.prems"(2) inv] unfolding R_def .
      have ih: "bfsLoop commitMap ancestor visited rest \<longleftrightarrow> (\<exists>q\<in>set rest. R q)"
        unfolding R_def by (rule "2.IH"(1)[OF ne True "2.prems"(1,2) inv])
      have run: "bfsLoop commitMap ancestor visited (current # rest) = bfsLoop commitMap ancestor visited rest"
        using ne True by simp
      show ?thesis unfolding run ih using esc by blast
    next
      case False
      let ?V = "insert current visited"
      let ?ps = "case map_of commitMap current of None \<Rightarrow> [] | Some node \<Rightarrow> parents node"
      let ?Q = "rest @ filter (\<lambda>p. p \<notin> ?V) ?ps"
      have succ: "(current, w) \<in> ?E \<longleftrightarrow> w \<in> set ?ps" for w
        by (rule succ_lookup) (rule "2.prems"(1))
      have a: "ancestor \<notin> ?V" using ne "2.prems"(2) by simp
      have inv: "\<forall>v\<in>?V. \<forall>w. (v, w) \<in> ?E \<longrightarrow> w \<in> ?V \<or> w \<in> set ?Q"
      proof (intro ballI allI impI)
        fix v w assume v: "v \<in> ?V" and e: "(v, w) \<in> ?E"
        show "w \<in> ?V \<or> w \<in> set ?Q"
        proof (cases "v = current")
          case True
          then have "w \<in> set ?ps" using e succ by simp
          then have "w \<in> ?V \<or> w \<in> set (filter (\<lambda>p. p \<notin> ?V) ?ps)"
            unfolding set_filter by blast
          then show ?thesis unfolding set_append by blast
        next
          case False
          then have "v \<in> visited" using v by simp
          then have "w \<in> visited \<or> w \<in> set (current # rest)" using e "2.prems"(3) by blast
          then show ?thesis by auto
        qed
      qed
      have run: "bfsLoop commitMap ancestor visited (current # rest) = bfsLoop commitMap ancestor ?V ?Q"
        using ne False by (cases "map_of commitMap current") simp_all
      have ih: "bfsLoop commitMap ancestor ?V ?Q \<longleftrightarrow> (\<exists>q\<in>set ?Q. R q)"
      proof (cases "map_of commitMap current")
        case None
        have i: "\<forall>v\<in>?V. \<forall>w. (v, w) \<in> ?E \<longrightarrow> w \<in> ?V \<or> w \<in> set rest"
          using inv unfolding None by simp
        show ?thesis unfolding R_def None using "2.IH"(2)[OF ne False None "2.prems"(1) a i] by simp
      next
        case (Some node)
        have i: "\<forall>v\<in>?V. \<forall>w. (v, w) \<in> ?E \<longrightarrow> w \<in> ?V \<or>
                    w \<in> set (rest @ filter (\<lambda>p. p \<notin> ?V) (parents node))"
          using inv unfolding Some by simp
        show ?thesis unfolding R_def Some using "2.IH"(3)[OF ne False Some "2.prems"(1) a i] by simp
      qed
      have step: "R current \<longleftrightarrow> (\<exists>w\<in>set ?ps. R w)"
      proof
        assume "R current"
        then have "(current, ancestor) \<in> ?E\<^sup>*" by (simp add: R_def)
        then show "\<exists>w\<in>set ?ps. R w"
        proof (cases rule: converse_rtranclE)
          case base
          then show ?thesis using ne by simp
        next
          case (step w)
          then show ?thesis using succ[of w] unfolding R_def by blast
        qed
      next
        assume "\<exists>w\<in>set ?ps. R w"
        then obtain w where w: "w \<in> set ?ps" "(w, ancestor) \<in> ?E\<^sup>*" unfolding R_def by blast
        have "(current, w) \<in> ?E" using w(1) succ by simp
        then show "R current" unfolding R_def using w(2) by (rule converse_rtrancl_into_rtrancl)
      qed
      have esc: "\<exists>q\<in>set ?Q. R q" if "w \<in> set ?ps" "R w" for w
      proof (cases "w \<in> ?V")
        case True
        show ?thesis
          using escape_visited[OF that(2)[unfolded R_def] True a inv] unfolding R_def .
      next
        case False
        then have "w \<in> set ?Q" using that(1) by simp
        then show ?thesis using that(2) by blast
      qed
      have "(\<exists>q\<in>set ?Q. R q) \<longleftrightarrow> R current \<or> (\<exists>q\<in>set rest. R q)"
      proof
        assume "\<exists>q\<in>set ?Q. R q"
        then obtain q where q: "q \<in> set ?Q" "R q" by blast
        then have "q \<in> set rest \<or> q \<in> set ?ps" by auto
        then show "R current \<or> (\<exists>q\<in>set rest. R q)" using q(2) step by blast
      next
        assume "R current \<or> (\<exists>q\<in>set rest. R q)"
        then show "\<exists>q\<in>set ?Q. R q"
        proof
          assume "R current"
          then obtain w where "w \<in> set ?ps" "R w" using step by blast
          then show ?thesis by (rule esc)
        next
          assume "\<exists>q\<in>set rest. R q"
          then obtain q where "q \<in> set rest" "R q" by blast
          then have "q \<in> set ?Q" "R q" by simp_all
          then show ?thesis by blast
        qed
      qed
      then show ?thesis unfolding run ih .
    qed
  qed
  show ?case using goal unfolding R_def by simp
qed


lemma rtrancl_eq_or_plus: "(b, a) \<in> E\<^sup>* \<longleftrightarrow> a = b \<or> (b, a) \<in> E\<^sup>+"
proof
  assume "(b, a) \<in> E\<^sup>*"
  then show "a = b \<or> (b, a) \<in> E\<^sup>+" using rtranclD[of b a E] by blast
next
  assume "a = b \<or> (b, a) \<in> E\<^sup>+"
  then show "(b, a) \<in> E\<^sup>*"
  proof
    assume "a = b"
    then show ?thesis by simp
  next
    assume "(b, a) \<in> E\<^sup>+"
    then show ?thesis by (rule trancl_into_rtrancl)
  qed
qed

text \<open>
  Claim C8: for a commit list with pairwise distinct identifiers, \<open>isAncestor commits a b\<close>
  is true if and only if \<open>a = b\<close> or \<open>a\<close> is reachable from \<open>b\<close> by one or more parent
  references; and \<open>isAncestor commits x x\<close> is true for every identifier \<open>x\<close>, in the list
  or not.
\<close>

theorem isAncestor_iff_reachable:
  assumes "distinct (map oid cs)"
  shows "(isAncestor cs a b \<longleftrightarrow> a = b \<or> (b, a) \<in> (parentEdges cs)\<^sup>+) \<and> isAncestor cs x x"
proof
  have m: "\<And>k c. map_of (buildCommitMap cs) k = Some c \<longleftrightarrow> c \<in> set cs \<and> oid c = k"
    using map_of_buildCommitMap[OF assms] by simp
  have "isAncestor cs a b \<longleftrightarrow> (\<exists>q\<in>set [b]. (q, a) \<in> (parentEdges cs)\<^sup>*)"
    unfolding isAncestor_def by (rule bfsLoop_correct[OF m]) simp_all
  then show "isAncestor cs a b \<longleftrightarrow> a = b \<or> (b, a) \<in> (parentEdges cs)\<^sup>+"
    using rtrancl_eq_or_plus[of b a "parentEdges cs"] by simp
  show "isAncestor cs x x" by (simp add: isAncestor_def)
qed

theorem isAncestor_iff_reachable_witness:
  "distinct (map oid chain3) \<and> isAncestor chain3 ''a'' ''c'' \<and>
   (''c'', ''a'') \<in> (parentEdges chain3)\<^sup>+ \<and> \<not> isAncestor chain3 ''c'' ''a'' \<and>
   (''a'', ''c'') \<notin> (parentEdges chain3)\<^sup>+ \<and> isAncestor chain3 ''q'' ''q''"
proof -
  have d: "distinct (map oid chain3)" by (simp add: chain3_def mkCommit_def)
  have t: "isAncestor chain3 ''a'' ''c''"
    by (simp add: isAncestor_def chain3_def mkCommit_def buildCommitMap_def)
  have f: "\<not> isAncestor chain3 ''c'' ''a''"
    by (simp add: isAncestor_def chain3_def mkCommit_def buildCommitMap_def)
  show ?thesis
    using isAncestor_iff_reachable[OF d, of "''a''" "''c''" "''q''"]
          isAncestor_iff_reachable[OF d, of "''c''" "''a''" "''q''"] d t f by simp
qed

section \<open>The tests of graphAlgo.test.ts on the model\<close>

text \<open>The expectations of the repository's own tests, evaluated on the definitions above
  (\<open>chain3\<close> is the linear history of the tests with one more, dangling parent).\<close>

lemma test_assignColumns_linear:
  "assignColumns chain3 ''a'' = Some 0 \<and> assignColumns chain3 ''b'' = Some 0 \<and>
   assignColumns chain3 ''c'' = Some 0"
  by (simp add: assignColumns_def chain3_def mkCommit_def sortNewestFirst_def placeCommit_def
        firstFreeLane_def Let_def)

lemma test_computeLayout_linear:
  "length (nodes (computeLayout chain3)) = 3 \<and> length (edges (computeLayout chain3)) = 2 \<and>
   n_y (nodes (computeLayout chain3) ! 0) < n_y (nodes (computeLayout chain3) ! 2) \<and>
   map n_oid (nodes (computeLayout chain3)) = [''c'', ''b'', ''a''] \<and>
   width (computeLayout chain3) = 200 \<and> height (computeLayout chain3) = 260"
  by code_simp

lemma test_quadtree_nearest:
  "queryNearest (insertAll (newQuadtree box100 4 8) ops3) 49 51 20 = Some ''B'' \<and>
   queryNearest (insertAll (newQuadtree box100 4 8) ops3) 88 92 20 = Some ''C'' \<and>
   queryNearest (insertAll (newQuadtree box100 4 8) [(''A'', 10, 10)]) 90 90 5 = None"
  by (simp add: insertAll_def ops3_def box100_def newQuadtree_def insert_qt_def inBounds_def
      queryNearest_def boundsOverlap_def nearestStep_def Let_def)

lemma test_isAncestor_unrelated:
  "\<not> isAncestor [mkCommit ''a'' [] 100, mkCommit ''b'' [] 200] ''a'' ''b''"
  by (simp add: isAncestor_def mkCommit_def buildCommitMap_def)

end
